theory Spec2Isabelle
  imports Main "HOL-Library.Log_Nat" "HOL-Library.AList"
begin

section \<open>Python values and errors\<close>

text \<open>
  The activities are Python coroutines. Python integers are unbounded and are modelled
  as \<^typ>\<open>int\<close> (or \<^typ>\<open>nat\<close> where the source counts rows or reads a
  \<^verbatim>\<open>u64\<close>). Every \<^verbatim>\<open>raise\<close> of the source, and every exception that leaves
  an activity, is the left summand of a result type. \<open>ExternalError\<close> stands for any
  exception raised by an external collaborator (ledger client, database).
\<close>

datatype py_error = ValueError | OverflowError | ZeroDivisionError | ExternalError

subsection \<open>Floating point\<close>

text \<open>
  Several activities compute token amounts and percentages with Python's \<^verbatim>\<open>/\<close> and
  with float literals, so the result is an IEEE 754 binary64 number, not an exact
  quotient. A finite double is modelled by the rational it denotes, and every
  operation rounds the exact result to the nearest double, ties to the even
  significand: \<open>fl\<close>. The significand has 53 bits; below \<open>2\<^sup>-\<^sup>1\<^sup>0\<^sup>2\<^sup>2\<close> the spacing stays
  \<open>2\<^sup>-\<^sup>1\<^sup>0\<^sup>7\<^sup>4\<close> (subnormal numbers).
\<close>

definition round_half_even :: "rat \<Rightarrow> int" where
  "round_half_even r =
     (let f = \<lfloor>r\<rfloor>; d = r - of_int f
      in if d < 1 / 2 then f else if 1 / 2 < d then f + 1
         else if even f then f else f + 1)"

text \<open>\<open>ilog2 x\<close> is the binary exponent of a positive rational: \<open>2\<^sup>e \<le> x < 2\<^sup>e\<^sup>+\<^sup>1\<close>.\<close>

definition ilog2 :: "rat \<Rightarrow> int" where
  "ilog2 x =
     (case quotient_of x of (a, b) \<Rightarrow>
        (let d = bitlen a - bitlen b
         in if 2 powi d \<le> x then d else d - 1))"

text \<open>The spacing of the doubles around a positive \<open>x\<close>.\<close>

definition quantum :: "rat \<Rightarrow> rat" where
  "quantum x = 2 powi (max (ilog2 x) (- 1022) - 52)"

definition fl_pos :: "rat \<Rightarrow> rat" where
  "fl_pos x = of_int (round_half_even (x / quantum x)) * quantum x"

definition fl :: "rat \<Rightarrow> rat" where
  "fl x = (if x = 0 then 0 else if 0 < x then fl_pos x else - fl_pos (- x))"

definition float_max :: rat where
  "float_max = (2 ^ 53 - 1) * 2 ^ 971"

text \<open>
  \<^verbatim>\<open>float(n)\<close>, the implicit conversion of an \<^verbatim>\<open>int\<close> operand in mixed arithmetic:
  correctly rounded, \<^verbatim>\<open>OverflowError\<close> when the result is not finite.
\<close>

definition py_float_of_int :: "int \<Rightarrow> py_error + rat" where
  "py_float_of_int n =
     (let r = fl (of_int n)
      in if float_max < \<bar>r\<bar> then Inl OverflowError else Inr r)"

text \<open>
  \<^verbatim>\<open>a / b\<close> on two \<^verbatim>\<open>int\<close>s: true division, the exact quotient rounded once;
  \<^verbatim>\<open>ZeroDivisionError\<close> for \<open>b = 0\<close>, \<^verbatim>\<open>OverflowError\<close> when the quotient is too large
  for a float.
\<close>

definition py_truediv :: "int \<Rightarrow> int \<Rightarrow> py_error + rat" where
  "py_truediv a b =
     (if b = 0 then Inl ZeroDivisionError
      else let r = fl (of_int a / of_int b)
           in if float_max < \<bar>r\<bar> then Inl OverflowError else Inr r)"

text \<open>
  \<^verbatim>\<open>x * y\<close> on two floats. Every product formed by the activities has a factor of
  magnitude at most 100 and the other factor at most \<open>max(1, float_max / 100)\<close> in the
  cases considered below, so the overflow to infinity of IEEE multiplication is not
  represented.
\<close>

definition py_fmul :: "rat \<Rightarrow> rat \<Rightarrow> rat" where
  "py_fmul x y = fl (x * y)"

text \<open>\<^verbatim>\<open>int(x)\<close> on a float truncates towards zero.\<close>

definition py_int_of_float :: "rat \<Rightarrow> int" where
  "py_int_of_float x = (if 0 \<le> x then \<lfloor>x\<rfloor> else \<lceil>x\<rceil>)"

section \<open>Vote counting (loan\_activities.py, bnpl\_access\_activities.py)\<close>

text \<open>
  \<^verbatim>\<open>count_votes(dao_id, proposal_id)\<close> looks the voting period up, counts the rows of
  \<^verbatim>\<open>VotingRecord\<close> of the proposal with \<^verbatim>\<open>vote == True\<close> and with \<^verbatim>\<open>vote == False\<close>, and
  decides \<^verbatim>\<open>yes_votes > total_votes / 2 if total_votes > 0 else False\<close>. The database
  is the list of voting periods (as pairs of DAO and proposal) and the list of voting
  records.
\<close>

record voting_record =
  vr_dao_id :: string
  vr_proposal_id :: string
  vr_vote :: bool

record loan_db =
  voting_periods :: "(string \<times> string) list"
  voting_records :: "voting_record list"

record vote_count =
  vc_proposal_id :: string
  yes_votes :: nat
  no_votes :: nat
  total_votes :: nat
  supermajority_reached :: bool

definition supermajority :: "nat \<Rightarrow> nat \<Rightarrow> py_error + bool" where
  "supermajority yes total_v =
     (if total_v > 0
      then (case py_truediv (int total_v) 2 of
              Inl e \<Rightarrow> Inl e
            | Inr half \<Rightarrow> Inr (half < of_nat yes))
      else Inr False)"

definition count_votes :: "loan_db \<Rightarrow> string \<Rightarrow> string \<Rightarrow> py_error + vote_count" where
  "count_votes db dao prop =
     (if (dao, prop) \<notin> set (voting_periods db) then Inl ValueError
      else
        let yes = length (filter (\<lambda>r. vr_dao_id r = dao \<and> vr_proposal_id r = prop \<and> vr_vote r)
                     (voting_records db));
            no = length (filter (\<lambda>r. vr_dao_id r = dao \<and> vr_proposal_id r = prop \<and> \<not> vr_vote r)
                     (voting_records db));
            total_v = yes + no
        in (case supermajority yes total_v of
              Inl e \<Rightarrow> Inl e
            | Inr s \<Rightarrow> Inr \<lparr>vc_proposal_id = prop, yes_votes = yes, no_votes = no,
                          total_votes = total_v, supermajority_reached = s\<rparr>))"

text \<open>
  \<^verbatim>\<open>count_application_votes(voting_period_id)\<close> reads the counters stored on the voting
  period (\<^verbatim>\<open>None\<close> read as 0 by \<^verbatim>\<open>or 0\<close>) and decides
  \<^verbatim>\<open>(int(yes_votes) / total_votes) * 100 > 50\<close> when \<^verbatim>\<open>total_votes > 0\<close>.
\<close>

record voting_period =
  vp_id :: string
  vp_yes_votes :: "nat option"
  vp_no_votes :: "nat option"

record application_votes =
  av_yes_votes :: nat
  av_no_votes :: nat
  av_total_votes :: nat
  approved :: bool

definition or_zero :: "nat option \<Rightarrow> nat" where
  "or_zero v = (case v of None \<Rightarrow> 0 | Some n \<Rightarrow> n)"

definition application_approved :: "nat \<Rightarrow> nat \<Rightarrow> py_error + bool" where
  "application_approved yes total_v =
     (if total_v > 0
      then (case py_truediv (int yes) (int total_v) of
              Inl e \<Rightarrow> Inl e
            | Inr ratio \<Rightarrow>
                (case py_float_of_int 100 of
                   Inl e \<Rightarrow> Inl e
                 | Inr hundred \<Rightarrow> Inr (50 < py_fmul ratio hundred)))
      else Inr False)"

definition count_application_votes ::
  "voting_period list \<Rightarrow> string \<Rightarrow> py_error + application_votes" where
  "count_application_votes periods voting_period_id =
     (case find (\<lambda>v. vp_id v = voting_period_id) periods of
        None \<Rightarrow> Inl ValueError
      | Some v \<Rightarrow>
          let yes = or_zero (vp_yes_votes v);
              no = or_zero (vp_no_votes v);
              total_v = yes + no
          in (case application_approved yes total_v of
                Inl e \<Rightarrow> Inl e
              | Inr a \<Rightarrow> Inr \<lparr>av_yes_votes = yes, av_no_votes = no,
                            av_total_votes = total_v, approved = a\<rparr>))"

section \<open>Installment calculation (bnpl\_activities.py)\<close>

text \<open>
  \<^verbatim>\<open>calculate_bnpl_installments(amount_token)\<close>: floor division and modulo by the
  constant 3 (Python's \<^verbatim>\<open>//\<close> and \<^verbatim>\<open>%\<close> agree with \<open>div\<close> and \<open>mod\<close> on
  \<^typ>\<open>int\<close>, both rounding towards minus infinity), the remainder added to the
  first installment, and the consistency check that raises \<^verbatim>\<open>ValueError\<close>.
\<close>

record bnpl_installments =
  installment_1 :: int
  installment_2 :: int
  installment_3 :: int
  total :: int

definition calculate_bnpl_installments :: "int \<Rightarrow> py_error + bnpl_installments" where
  "calculate_bnpl_installments amount_token =
     (let installment_amount = amount_token div 3;
          remainder = amount_token mod 3;
          i1 = installment_amount + remainder;
          i2 = installment_amount;
          i3 = installment_amount;
          tot = i1 + i2 + i3
      in if tot \<noteq> amount_token then Inl ValueError
         else Inr \<lparr>installment_1 = i1, installment_2 = i2, installment_3 = i3, total = tot\<rparr>)"

definition installment_list :: "bnpl_installments \<Rightarrow> int list" where
  "installment_list r = [installment_1 r, installment_2 r, installment_3 r]"

text \<open>
  The schedule as the specification words it, for any number of installments:
  \<open>base = principal div n\<close>, \<open>remainder = principal mod n\<close>, the first amount is
  \<open>base + remainder\<close> and the others are \<open>base\<close>.
\<close>

definition spec_schedule :: "int \<Rightarrow> nat \<Rightarrow> int list" where
  "spec_schedule pr n =
     (pr div int n + pr mod int n) # replicate (n - 1) (pr div int n)"

section \<open>Properties of the floating-point model\<close>

lemma round_half_even_of_int: "round_half_even (of_int n) = n"
  by (simp add: round_half_even_def)

lemma round_half_even_floor_le: "\<lfloor>r\<rfloor> \<le> round_half_even r"
  by (simp add: round_half_even_def Let_def)

lemma round_half_even_le_floor: "round_half_even r \<le> \<lfloor>r\<rfloor> + 1"
  by (simp add: round_half_even_def Let_def)

lemma round_half_even_mono:
  assumes "r \<le> s"
  shows "round_half_even r \<le> round_half_even s"
proof (cases "\<lfloor>r\<rfloor> = \<lfloor>s\<rfloor>")
  case True
  then show ?thesis
    using assms by (auto simp add: round_half_even_def Let_def)
next
  case False
  then have "\<lfloor>r\<rfloor> < \<lfloor>s\<rfloor>"
    using assms floor_mono [of r s] by linarith
  then have "round_half_even r \<le> \<lfloor>s\<rfloor>"
    using round_half_even_le_floor [of r] by linarith
  then show ?thesis
    using round_half_even_floor_le [of s] by linarith
qed

lemma bitlen_bounds_rat:
  assumes "0 < a"
  shows "(2::rat) powi (bitlen a - 1) \<le> of_int a" and "of_int a < (2::rat) powi (bitlen a)"
proof -
  have l1: "1 \<le> bitlen a"
    using assms by (auto simp: bitlen_alt_def)
  have "(2::int) ^ nat (bitlen a - 1) \<le> a" and "a < 2 ^ nat (bitlen a)"
    using bitlen_bounds [OF assms] by auto
  then have "(of_int ((2::int) ^ nat (bitlen a - 1)) :: rat) \<le> of_int a"
    and "(of_int a :: rat) < of_int (2 ^ nat (bitlen a))"
    by (simp_all only: of_int_le_iff of_int_less_iff)
  then show "(2::rat) powi (bitlen a - 1) \<le> of_int a" and "of_int a < (2::rat) powi (bitlen a)"
    using l1 by (simp_all add: power_int_def)
qed

lemma ilog2_bounds:
  assumes "0 < x"
  shows "2 powi (ilog2 x) \<le> x" and "x < 2 powi (ilog2 x + 1)"
proof -
  obtain a b where q: "quotient_of x = (a, b)"
    by (cases "quotient_of x")
  then have b: "0 < b" and x: "x = of_int a / of_int b"
    using quotient_of_denom_pos [OF q] quotient_of_div [OF q] by auto
  from assms x b have a: "0 < a"
    by (simp add: zero_less_divide_iff)
  define d where "d = bitlen a - bitlen b"
  have il: "ilog2 x = (if 2 powi d \<le> x then d else d - 1)"
    by (simp add: ilog2_def q d_def Let_def)
  have bpos: "(0::rat) < of_int b"
    using b by simp
  have lo: "(2::rat) powi (d - 1) \<le> x"
  proof -
    have "(2::rat) powi (d - 1) * of_int b \<le> 2 powi (d - 1) * 2 powi (bitlen b)"
      using bitlen_bounds_rat(2) [OF b] by (intro mult_left_mono) simp_all
    also have "\<dots> = 2 powi (bitlen a - 1)"
      by (simp add: d_def power_int_add [symmetric] del: power_int_diff)
    also have "\<dots> \<le> of_int a"
      by (rule bitlen_bounds_rat(1) [OF a])
    finally show ?thesis
      using bpos by (simp add: x pos_le_divide_eq)
  qed
  have hi: "x < (2::rat) powi (d + 1)"
  proof -
    have "of_int a < (2::rat) powi (bitlen a)"
      by (rule bitlen_bounds_rat(2) [OF a])
    also have "\<dots> = 2 powi (d + 1) * 2 powi (bitlen b - 1)"
      by (simp add: d_def power_int_add [symmetric])
    also have "\<dots> \<le> 2 powi (d + 1) * of_int b"
      using bitlen_bounds_rat(1) [OF b] by (intro mult_left_mono) simp_all
    finally show ?thesis
      using bpos by (simp add: x pos_divide_less_eq)
  qed
  show "2 powi (ilog2 x) \<le> x"
    using lo by (simp add: il)
  show "x < 2 powi (ilog2 x + 1)"
    using hi by (auto simp add: il not_le)
qed


lemma power_int_two_mono:
  "i \<le> j \<Longrightarrow> (2::rat) powi i \<le> 2 powi j"
  by (rule power_int_increasing) simp_all

lemma power_int_two_less_imp:
  assumes "(2::rat) powi i < 2 powi j"
  shows "i < j"
proof (rule ccontr)
  assume "\<not> i < j"
  then have "(2::rat) powi j \<le> 2 powi i"
    by (intro power_int_two_mono) simp
  with assms show False by simp
qed

lemma ilog2_mono:
  assumes "0 < x" and "x \<le> y"
  shows "ilog2 x \<le> ilog2 y"
proof (rule ccontr)
  assume "\<not> ilog2 x \<le> ilog2 y"
  then have "ilog2 y + 1 \<le> ilog2 x"
    by simp
  then have "(2::rat) powi (ilog2 y + 1) \<le> 2 powi (ilog2 x)"
    by (rule power_int_two_mono)
  also have "\<dots> \<le> x"
    by (rule ilog2_bounds(1) [OF assms(1)])
  also have "\<dots> \<le> y"
    by (rule assms(2))
  finally show False
    using ilog2_bounds(2) [of y] assms by simp
qed

lemma ilog2_unique:
  assumes "2 powi e \<le> x" and "x < 2 powi (e + 1)"
  shows "ilog2 x = e"
proof -
  have pos: "0 < x"
    using assms(1) by (rule less_le_trans [rotated]) simp
  have "(2::rat) powi e < 2 powi (ilog2 x + 1)"
    using assms(1) ilog2_bounds(2) [OF pos] by simp
  then have 1: "e < ilog2 x + 1"
    by (rule power_int_two_less_imp)
  have "(2::rat) powi (ilog2 x) < 2 powi (e + 1)"
    using assms(2) ilog2_bounds(1) [OF pos] by simp
  then have 2: "ilog2 x < e + 1"
    by (rule power_int_two_less_imp)
  from 1 2 show ?thesis by simp
qed

lemma quantum_pos: "0 < quantum x"
  by (simp add: quantum_def)

lemma fl_pos_quantum: "fl_pos x = of_int (round_half_even (x / quantum x)) * quantum x"
  by (simp add: fl_pos_def)

lemma quantum_mono:
  assumes "0 < x" and "x \<le> y"
  shows "quantum x \<le> quantum y"
  unfolding quantum_def using ilog2_mono [OF assms] by (intro power_int_two_mono) simp

lemma fl_pos_upper:
  assumes "0 < x"
  shows "fl_pos x \<le> 2 powi (max (ilog2 x) (- 1022) + 1)"
proof -
  define e where "e = max (ilog2 x) (- 1022)"
  have q: "quantum x = 2 powi (e - 52)"
    by (simp add: quantum_def e_def)
  have "x < 2 powi (ilog2 x + 1)"
    by (rule ilog2_bounds(2) [OF assms])
  also have "\<dots> \<le> 2 powi (e + 1)"
    by (rule power_int_two_mono) (simp add: e_def)
  finally have "x / quantum x \<le> 2 powi (e + 1) / quantum x"
    using quantum_pos [of x] by (simp add: divide_right_mono)
  also have "\<dots> = 2 powi 53"
    by (simp add: q power_int_diff [symmetric])
  also have "\<dots> = of_int (2 ^ 53)"
    by simp
  finally have "round_half_even (x / quantum x) \<le> round_half_even (of_int (2 ^ 53))"
    by (rule round_half_even_mono)
  then have "round_half_even (x / quantum x) \<le> 2 ^ 53"
    by (simp only: round_half_even_of_int)
  then have "(of_int (round_half_even (x / quantum x)) :: rat) \<le> of_int (2 ^ 53)"
    by (simp only: of_int_le_iff)
  then have "fl_pos x \<le> of_int (2 ^ 53) * quantum x"
    unfolding fl_pos_quantum using quantum_pos [of x] by (intro mult_right_mono) simp_all
  also have "\<dots> = 2 powi 53 * 2 powi (e - 52)"
    by (simp add: q)
  also have "\<dots> = 2 powi (e + 1)"
    by (simp add: power_int_add [symmetric] add.commute del: power_int_numeral)
  finally show ?thesis
    by (simp add: e_def)
qed

lemma fl_pos_lower:
  assumes "0 < x" and "- 1022 \<le> ilog2 x"
  shows "2 powi (ilog2 x) \<le> fl_pos x"
proof -
  define e where "e = ilog2 x"
  have q: "quantum x = 2 powi (e - 52)"
    using assms(2) by (simp add: quantum_def e_def max_def)
  have "(2::rat) powi 52 = 2 powi e / quantum x"
    by (simp add: q power_int_diff [symmetric])
  also have "\<dots> \<le> x / quantum x"
    using ilog2_bounds(1) [OF assms(1)] quantum_pos [of x]
    by (simp add: divide_right_mono e_def)
  finally have "round_half_even (of_int (2 ^ 52)) \<le> round_half_even (x / quantum x)"
    by (intro round_half_even_mono) simp
  then have "2 ^ 52 \<le> round_half_even (x / quantum x)"
    by (simp only: round_half_even_of_int)
  then have "(of_int (2 ^ 52) :: rat) \<le> of_int (round_half_even (x / quantum x))"
    by (simp only: of_int_le_iff)
  then have "of_int (2 ^ 52) * quantum x \<le> fl_pos x"
    unfolding fl_pos_quantum using quantum_pos [of x] by (intro mult_right_mono) simp_all
  moreover have "of_int (2 ^ 52) * quantum x = 2 powi 52 * 2 powi (e - 52)"
    by (simp add: q)
  moreover have "\<dots> = 2 powi e"
    by (simp add: power_int_add [symmetric] del: power_int_numeral)
  ultimately show ?thesis
    by (simp add: e_def)
qed

lemma fl_pos_mono:
  assumes "0 < x" and "x \<le> y"
  shows "fl_pos x \<le> fl_pos y"
proof -
  have ypos: "0 < y"
    using assms by simp
  define ex ey where "ex = max (ilog2 x) (- 1022)" and "ey = max (ilog2 y) (- 1022)"
  have le: "ex \<le> ey"
    using ilog2_mono [OF assms] by (simp add: ex_def ey_def)
  show ?thesis
  proof (cases "ex = ey")
    case True
    then have q: "quantum x = quantum y"
      by (simp add: quantum_def ex_def ey_def)
    have "x / quantum y \<le> y / quantum y"
      using assms(2) quantum_pos [of y] by (simp add: divide_right_mono)
    then have "round_half_even (x / quantum y) \<le> round_half_even (y / quantum y)"
      by (rule round_half_even_mono)
    then have "(of_int (round_half_even (x / quantum y)) :: rat)
        \<le> of_int (round_half_even (y / quantum y))"
      by (simp only: of_int_le_iff)
    then show ?thesis
      unfolding fl_pos_quantum q using quantum_pos [of y] by (intro mult_right_mono) simp_all
  next
    case False
    with le have lt: "ex < ey"
      by simp
    then have ey: "ey = ilog2 y" and big: "- 1022 \<le> ilog2 y"
      by (auto simp add: ex_def ey_def max_def split: if_splits)
    have "fl_pos x \<le> 2 powi (ex + 1)"
      using fl_pos_upper [OF assms(1)] by (simp add: ex_def)
    also have "\<dots> \<le> 2 powi ey"
      using lt by (intro power_int_two_mono) simp
    also have "\<dots> \<le> fl_pos y"
      using fl_pos_lower [OF ypos big] by (simp add: ey)
    finally show ?thesis .
  qed
qed

lemma fl_pos_nonneg: "0 \<le> x \<Longrightarrow> 0 \<le> fl_pos x"
proof -
  assume "0 \<le> x"
  then have "0 \<le> x / quantum x"
    using quantum_pos [of x] by simp
  then have "round_half_even (of_int 0) \<le> round_half_even (x / quantum x)"
    by (intro round_half_even_mono) simp
  then have "0 \<le> round_half_even (x / quantum x)"
    by (simp only: round_half_even_of_int)
  then show ?thesis
    unfolding fl_pos_quantum using quantum_pos [of x] by simp
qed

lemma fl_mono:
  assumes "0 \<le> x" and "x \<le> y"
  shows "fl x \<le> fl y"
proof (cases "x = 0")
  case True
  then show ?thesis
    using assms fl_pos_nonneg [of y] by (simp add: fl_def)
next
  case False
  then have "0 < x" using assms by simp
  then show ?thesis
    using assms fl_pos_mono [of x y] by (simp add: fl_def)
qed

lemma fl_nonneg: "0 \<le> x \<Longrightarrow> 0 \<le> fl x"
  using fl_pos_nonneg [of x] by (simp add: fl_def)

lemma fl_pos_exact:
  assumes m: "0 < m" "m < 2 ^ 53" and j: "- 1074 \<le> j"
  shows "fl_pos (of_int m * 2 powi j) = of_int m * 2 powi j"
proof -
  define x :: rat where "x = of_int m * 2 powi j"
  have pos: "0 < x"
    using m by (simp add: x_def)
  define e where "e = max (ilog2 x) (- 1022)"
  have "(2::rat) powi (ilog2 x) \<le> x"
    by (rule ilog2_bounds(1) [OF pos])
  also have "x < of_int (2 ^ 53) * 2 powi j"
    unfolding x_def using m(2) by (intro mult_strict_right_mono) (simp_all only: of_int_less_iff, simp)
  also have "\<dots> = 2 powi (53 + j)"
    by (simp add: power_int_add)
  finally have "ilog2 x < 53 + j"
    by (rule power_int_two_less_imp)
  then have k: "0 \<le> j - (e - 52)"
    using j by (simp add: e_def)
  have q: "quantum x = 2 powi (e - 52)"
    by (simp add: quantum_def e_def)
  have "x / quantum x = of_int m * (2 powi j / 2 powi (e - 52))"
    unfolding q by (simp add: x_def)
  also have "2 powi j / 2 powi (e - 52) = (2::rat) powi (j - (e - 52))"
    by (simp add: power_int_diff)
  also have "\<dots> = of_int (2 ^ nat (j - (e - 52)))"
    using k by (simp add: power_int_def)
  finally have "x / quantum x = of_int (m * 2 ^ nat (j - (e - 52)))"
    by simp
  then have "round_half_even (x / quantum x) = m * 2 ^ nat (j - (e - 52))"
    by (simp only: round_half_even_of_int)
  then have "fl_pos x = of_int (m * 2 ^ nat (j - (e - 52))) * quantum x"
    by (simp only: fl_pos_quantum)
  also have "\<dots> = x / quantum x * quantum x"
    using \<open>x / quantum x = of_int (m * 2 ^ nat (j - (e - 52)))\<close> by simp
  also have "\<dots> = x"
    using quantum_pos [of x] by simp
  finally show ?thesis
    by (simp add: x_def)
qed

lemma fl_exact:
  assumes "0 \<le> m" "m < 2 ^ 53" and "- 1074 \<le> j"
  shows "fl (of_int m * 2 powi j) = of_int m * 2 powi j"
proof (cases "m = 0")
  case True
  then show ?thesis by (simp add: fl_def)
next
  case False
  then have "0 < m" using assms by simp
  then have "(0::rat) < of_int m * 2 powi j"
    by simp
  then show ?thesis
    using fl_pos_exact [OF \<open>0 < m\<close> assms(2,3)] by (simp add: fl_def)
qed

lemma fl_of_int:
  assumes "0 \<le> m" "m < 2 ^ 53"
  shows "fl (of_int m) = of_int m"
  using fl_exact [OF assms, of 0] by simp

section \<open>Properties of the installment calculation\<close>

lemma sum_list_spec_schedule:
  assumes "1 \<le> n"
  shows "sum_list (spec_schedule pr n) = pr"
proof -
  have "int (n - 1) = int n - 1"
    using assms by simp
  then have "sum_list (spec_schedule pr n)
      = pr div int n + pr mod int n + (int n - 1) * (pr div int n)"
    by (simp add: spec_schedule_def sum_list_replicate)
  also have "\<dots> = int n * (pr div int n) + pr mod int n"
    by (simp add: algebra_simps)
  also have "\<dots> = pr"
    by simp
  finally show ?thesis .
qed

lemma calculate_bnpl_installments_value:
  "calculate_bnpl_installments p =
     Inr \<lparr>installment_1 = p div 3 + p mod 3, installment_2 = p div 3,
          installment_3 = p div 3, total = p\<rparr>"
proof -
  have "p div 3 + p mod 3 + p div 3 + p div 3 = 3 * (p div 3) + p mod 3"
    by simp
  also have "\<dots> = p"
    by simp
  finally show ?thesis
    by (simp add: calculate_bnpl_installments_def Let_def)
qed

text \<open>
  Claim C2. For every principal and every number of installments \<open>n \<ge> 1\<close> the schedule
  \<open>[base + remainder, base, ..., base]\<close> has \<open>n\<close> amounts that sum to the principal
  exactly. The code fixes \<open>n = 3\<close>: for every principal it returns that schedule for
  \<open>n = 3\<close> with \<open>total\<close> equal to the principal, so its \<^verbatim>\<open>ValueError\<close> branch is never
  taken; for principal 100 the installments are 34, 33, 33.
\<close>

theorem installment_schedule_exact:
  assumes "1 \<le> n"
  shows "sum_list (spec_schedule pr n) = pr
       \<and> length (spec_schedule pr n) = n
       \<and> (\<exists>r. calculate_bnpl_installments pr = Inr r
              \<and> installment_list r = spec_schedule pr 3
              \<and> total r = pr
              \<and> sum_list (installment_list r) = pr)
       \<and> map_sum id installment_list (calculate_bnpl_installments 100) = Inr [34, 33, 33]"
proof -
  have three: "sum_list (spec_schedule pr 3) = pr"
    by (rule sum_list_spec_schedule) simp
  have code: "installment_list \<lparr>installment_1 = pr div 3 + pr mod 3,
        installment_2 = pr div 3, installment_3 = pr div 3,
        total = pr\<rparr> = spec_schedule pr 3"
    by (simp add: installment_list_def spec_schedule_def numeral_3_eq_3)
  have ex: "map_sum id installment_list (calculate_bnpl_installments 100) = Inr [34, 33, 33]"
    by (simp add: calculate_bnpl_installments_value installment_list_def)
  show ?thesis
    using assms sum_list_spec_schedule [OF assms, of pr] three code ex
    by (simp add: calculate_bnpl_installments_value spec_schedule_def)
qed

theorem installment_schedule_exact_witness:
  "(1::nat) \<le> 3
   \<and> sum_list (spec_schedule 100 3) = 100
   \<and> spec_schedule 100 3 = [34, 33, 33]
   \<and> map_sum id installment_list (calculate_bnpl_installments 100) = Inr [34, 33, 33]"
proof -
  have h: "(1::nat) \<le> 3" by simp
  have "spec_schedule 100 3 = [34, 33, 33]"
    by (simp add: spec_schedule_def numeral_3_eq_3)
  then show ?thesis
    using installment_schedule_exact [OF h, of 100] by simp
qed

end
